theory Spec2Isabelle
  imports Main "HOL-Library.Word"
begin

section \<open>Data model\<close>

text \<open>
  A Python \<open>str\<close> is a sequence of Unicode code points; \<open>len\<close>, indexing and the
  \<open>re\<close> module all work on code points, so a string is modelled as a list of
  natural numbers. A \<open>bytes\<close> object is a list of octets. Python integers are unbounded
  and are modelled by \<open>int\<close>.
\<close>

type_synonym codepoint = nat
type_synonym str = "codepoint list"
type_synonym bytes = "8 word list"

text \<open>A string literal of the source, read as code points.\<close>

definition literal :: "string \<Rightarrow> str" where
  "literal s = map of_char s"

text \<open>A Python exception, carrying the message that \<open>str(e)\<close> renders.\<close>

datatype exn = Exception str

fun message :: "exn \<Rightarrow> str" where
  "message (Exception m) = m"


section \<open>The regular expression\<close>

text \<open>
  The only pattern of the program is \<^verbatim>\<open>[\u0900-\u097F]+\<close>: one character class given
  by an inclusive range, repeated greedily one or more times. \<open>ClassPlus lo hi\<close> is the
  compiled form of \<^verbatim>\<open>[lo-hi]+\<close>.
\<close>

datatype pattern = ClassPlus codepoint codepoint

definition HINDI_WORD_REGEX :: pattern where
  "HINDI_WORD_REGEX = ClassPlus 0x0900 0x097F"

fun class_member :: "pattern \<Rightarrow> codepoint \<Rightarrow> bool" where
  "class_member (ClassPlus lo hi) c \<longleftrightarrow> lo \<le> c \<and> c \<le> hi"

text \<open>
  \<open>Pattern.findall\<close> scans the string from left to right. At a position whose code
  point is in the class the greedy \<open>+\<close> consumes every following code point of the
  class; the match is appended and the scan resumes right after it. At any other
  position no match is possible (the pattern cannot match the empty string) and the scan
  moves one code point on.
\<close>

function findall :: "pattern \<Rightarrow> str \<Rightarrow> str list" where
  "findall p [] = []"
| "findall p (c # cs) =
     (if class_member p c
      then (c # takeWhile (class_member p) cs) # findall p (dropWhile (class_member p) cs)
      else findall p cs)"
  by pat_completeness auto
termination
  by (relation "measure (\<lambda>(p, s). length s)")
     (auto simp: length_dropWhile_le less_Suc_eq_le)


section \<open>The PDF library\<close>

text \<open>
  PyMuPDF is not part of the program; the three operations the program calls are taken
  as parameters. \<open>fitz_open\<close> is \<^verbatim>\<open>fitz.open(stream=..., filetype="pdf")\<close>, which
  either raises or yields a document; \<open>doc_pages\<close> is the sequence that
  \<^verbatim>\<open>for page in doc\<close> runs through, in document order; \<open>get_text\<close> is
  \<^verbatim>\<open>page.get_text()\<close>, which yields the page's plain text or raises (a page that
  cannot be loaded is a page whose text extraction raises). Leaving the \<^verbatim>\<open>with\<close>
  block closes the document and has no result.
\<close>

record ('doc, 'page) pymupdf =
  fitz_open :: "bytes \<Rightarrow> exn + 'doc"
  doc_pages :: "'doc \<Rightarrow> 'page list"
  get_text :: "'page \<Rightarrow> exn + str"


section \<open>Core logic: counting\<close>

text \<open>
  The body of the \<^verbatim>\<open>for\<close> loop of \<open>count_hindi_words_in_pdf\<close>, run over the
  remaining pages with the current value of \<open>word_count\<close>. An exception raised by
  \<open>get_text\<close> is not caught and ends the function.
\<close>

fun for_page_in :: "('doc, 'page) pymupdf \<Rightarrow> 'page list \<Rightarrow> int \<Rightarrow> exn + int" where
  "for_page_in L [] word_count = Inr word_count"
| "for_page_in L (page # rest) word_count =
     (case get_text L page of
        Inl e \<Rightarrow> Inl e
      | Inr text \<Rightarrow>
          (let hindi_words = findall HINDI_WORD_REGEX text
           in for_page_in L rest (word_count + int (length hindi_words))))"

definition count_hindi_words_in_pdf :: "('doc, 'page) pymupdf \<Rightarrow> bytes \<Rightarrow> exn + int" where
  "count_hindi_words_in_pdf L pdf_content =
     (case fitz_open L pdf_content of
        Inl e \<Rightarrow> Inl e
      | Inr doc \<Rightarrow> for_page_in L (doc_pages L doc) 0)"


section \<open>The upload handler\<close>

text \<open>
  An uploaded file has a file name and a \<open>read()\<close> operation, which yields the content
  or raises. The template context is a dictionary from keys to values.
\<close>

record upload_file =
  filename :: str
  read :: "exn + bytes"

datatype 'req ctx_value = VRequest 'req | VStr str | VInt int

type_synonym 'req template_context = "string \<rightharpoonup> 'req ctx_value"

datatype 'req response = TemplateResponse string "'req template_context"

text \<open>
  What the handler does besides computing its response: reading the upload, calling the
  counting function, printing a line.
\<close>

datatype event = FileRead | CountCall bytes | Print str

definition endswith :: "str \<Rightarrow> str \<Rightarrow> bool" where
  "endswith s suffix \<longleftrightarrow>
     length suffix \<le> length s \<and> drop (length s - length suffix) s = suffix"

text \<open>
  \<open>str.lower\<close> follows the Unicode case mapping of the interpreter, which is not part
  of the program; it is the parameter \<open>lower\<close>.
\<close>

definition handle_pdf_upload ::
  "(str \<Rightarrow> str) \<Rightarrow> ('doc, 'page) pymupdf \<Rightarrow> 'req \<Rightarrow> upload_file \<Rightarrow> 'req response \<times> event list"
where
  "handle_pdf_upload lower L request pdf_file =
     (let context = [''request'' \<mapsto> VRequest request] in
      if \<not> endswith (lower (filename pdf_file)) (literal ''.pdf'')
      then (TemplateResponse ''index.html''
              (context(''error'' \<mapsto> VStr (literal ''Invalid file type. Please upload a PDF.''))),
            [])
      else
        let failed = (\<lambda>e. context(''error'' \<mapsto>
                        VStr (literal ''Could not process the PDF file. It may be corrupt or invalid.'')));
            printed = (\<lambda>e. Print (literal ''Error processing file '' @ filename pdf_file
                                    @ literal '': '' @ message e))
        in case read pdf_file of
             Inl e \<Rightarrow> (TemplateResponse ''index.html'' (failed e), [FileRead, printed e])
           | Inr file_bytes \<Rightarrow>
               (case count_hindi_words_in_pdf L file_bytes of
                  Inl e \<Rightarrow>
                    (TemplateResponse ''index.html'' (failed e),
                     [FileRead, CountCall file_bytes, printed e])
                | Inr total_words \<Rightarrow>
                    (TemplateResponse ''index.html''
                       (context(''word_count'' \<mapsto> VInt total_words,
                                ''filename'' \<mapsto> VStr (filename pdf_file))),
                     [FileRead, CountCall file_bytes])))"


section \<open>Notions of the specification\<close>

text \<open>
  The count that the specification describes. The Devanagari block is the range U+0900
  to U+097F. A maximal run of a text is a contiguous stretch of positions \<open>i\<close> up to, and
  not including, \<open>j\<close>: it has at least one code point, all its code points are in the
  block, and it can be extended neither to the left nor to the right. The count of a
  text is the number of its maximal runs. These definitions follow the words of the
  specification, not the code.
\<close>

definition devanagari :: "codepoint \<Rightarrow> bool" where
  "devanagari c \<longleftrightarrow> 0x0900 \<le> c \<and> c \<le> 0x097F"

definition spec_maximal_run :: "str \<Rightarrow> nat \<Rightarrow> nat \<Rightarrow> bool" where
  "spec_maximal_run t i j \<longleftrightarrow>
     i < j \<and> j \<le> length t \<and> (\<forall>k\<in>{i..<j}. devanagari (t ! k))
     \<and> (i = 0 \<or> \<not> devanagari (t ! (i - 1)))
     \<and> (j = length t \<or> \<not> devanagari (t ! j))"

definition spec_maximal_runs :: "str \<Rightarrow> (nat \<times> nat) list" where
  "spec_maximal_runs t =
     filter (\<lambda>(i, j). spec_maximal_run t i j)
       (List.product [0..<length t] [0..<Suc (length t)])"

definition spec_run_count :: "str \<Rightarrow> nat" where
  "spec_run_count t = length (spec_maximal_runs t)"

text \<open>
  Two notions used to relate the scan of \<open>findall\<close> to the maximal runs. \<open>run_starts\<close>
  counts the positions where a run begins, \<open>prev\<close> telling whether the code point
  before the text is in the class. \<open>run_after\<close> is the maximal run of a text that
  follows such a code point.
\<close>

fun run_starts :: "('a \<Rightarrow> bool) \<Rightarrow> bool \<Rightarrow> 'a list \<Rightarrow> nat" where
  "run_starts P prev [] = 0"
| "run_starts P prev (c # cs) = (if P c \<and> \<not> prev then 1 else 0) + run_starts P (P c) cs"

definition run_after :: "('a \<Rightarrow> bool) \<Rightarrow> bool \<Rightarrow> 'a list \<Rightarrow> nat \<Rightarrow> nat \<Rightarrow> bool" where
  "run_after P prev t i j \<longleftrightarrow>
     i < j \<and> j \<le> length t \<and> (\<forall>k\<in>{i..<j}. P (t ! k))
     \<and> (if i = 0 then \<not> prev else \<not> P (t ! (i - 1)))
     \<and> (j = length t \<or> \<not> P (t ! j))"

text \<open>The context that a response renders.\<close>

fun response_context :: "'req response \<Rightarrow> 'req template_context" where
  "response_context (TemplateResponse name ctx) = ctx"


section \<open>Sample inputs\<close>

text \<open>
  A stand-in for the PDF library, used to run the program on concrete inputs: it opens
  exactly the buffers listed in a table, and a page is the outcome of its own text
  extraction.
\<close>

definition table_fitz ::
  "(bytes \<times> (exn + str) list) list \<Rightarrow> ((exn + str) list, exn + str) pymupdf" where
  "table_fitz table =
     \<lparr> fitz_open = (\<lambda>b. case map_of table b of
                           None \<Rightarrow> Inl (Exception (literal ''Failed to open stream''))
                         | Some pages \<Rightarrow> Inr pages),
       doc_pages = (\<lambda>doc. doc),
       get_text = (\<lambda>page. page) \<rparr>"


text \<open>The texts used as examples, as code points.\<close>

definition text_ram_danda :: str where
  "text_ram_danda = [0x930, 0x93E, 0x92E, 0x964]"

definition text_hello_world :: str where
  "text_hello_world =
     [0x939, 0x948, 0x932, 0x94B, 0x20, 0x68, 0x65, 0x6C, 0x6C, 0x6F, 0x20,
      0x935, 0x930, 0x94D, 0x932, 0x94D, 0x921]"

definition text_digits :: str where
  "text_digits = [0x967, 0x968, 0x969]"

definition text_danda :: str where
  "text_danda = [0x964]"

definition text_mixed :: str where
  "text_mixed = [0x930, 0x20, 0x61, 0x964, 0x967]"

text \<open>Byte buffers: two that the sample tables list as documents, one that they do not.\<close>

definition sample_pdf :: bytes where
  "sample_pdf = [0x25, 0x50, 0x44, 0x46]"

definition hello_pdf :: bytes where
  "hello_pdf = [0x25, 0x50, 0x44, 0x46, 0x2D]"


text \<open>A stand-in for \<open>str.lower\<close> that is right on ASCII file names.\<close>

definition ascii_lower :: "str \<Rightarrow> str" where
  "ascii_lower s = map (\<lambda>c. if 0x41 \<le> c \<and> c \<le> 0x5A then c + 0x20 else c) s"


section \<open>The page loop\<close>

lemma for_page_in_texts:
  "map (get_text L) ps = map Inr ts \<Longrightarrow>
   for_page_in L ps wc = Inr (wc + (\<Sum>t\<leftarrow>ts. int (length (findall HINDI_WORD_REGEX t))))"
proof (induction ps arbitrary: ts wc)
  case Nil
  then show ?case by simp
next
  case (Cons p ps)
  then obtain t ts' where ts: "ts = t # ts'" "get_text L p = Inr t"
    "map (get_text L) ps = map Inr ts'"
    by (cases ts) auto
  with Cons.IH [of ts'] show ?case by (simp add: Let_def)
qed

lemma count_texts:
  "fitz_open L b = Inr doc \<Longrightarrow> map (get_text L) (doc_pages L doc) = map Inr ts \<Longrightarrow>
   count_hindi_words_in_pdf L b = Inr (\<Sum>t\<leftarrow>ts. int (length (findall HINDI_WORD_REGEX t)))"
  by (simp add: count_hindi_words_in_pdf_def for_page_in_texts)

lemma findall_all_members:
  assumes "t \<noteq> []" and "\<forall>c\<in>set t. class_member p c"
  shows "findall p t = [t]"
proof (cases t)
  case Nil
  with assms(1) show ?thesis by simp
next
  case (Cons c cs)
  with assms(2) have "class_member p c" and "\<forall>x\<in>set cs. class_member p x"
    by simp_all
  then have "takeWhile (class_member p) cs = cs" and "dropWhile (class_member p) cs = []"
    by simp_all
  with Cons \<open>class_member p c\<close> show ?thesis
    by (simp del: dropWhile_eq_Nil_conv takeWhile_eq_all_conv)
qed


lemma findall_run_then_other:
  assumes "run \<noteq> []" and "\<forall>c\<in>set run. class_member p c" and "\<not> class_member p q"
  shows "findall p (run @ [q]) = [run]"
proof (cases run)
  case Nil
  with assms(1) show ?thesis by simp
next
  case (Cons c cs)
  with assms(2) have c: "class_member p c" and cs: "\<forall>x\<in>set cs. class_member p x"
    by simp_all
  from cs assms(3) have "takeWhile (class_member p) (cs @ [q]) = cs"
    and "dropWhile (class_member p) (cs @ [q]) = [q]"
    by simp_all
  with Cons c assms(3) show ?thesis
    by (simp del: dropWhile_eq_Nil_conv takeWhile_eq_all_conv)
qed

lemma findall_matches_in_class:
  "w \<in> set (findall p t) \<Longrightarrow> w \<noteq> [] \<and> (\<forall>c\<in>set w. class_member p c)"
proof (induction p t rule: findall.induct)
  case (1 p)
  then show ?case by simp
next
  case (2 p c cs)
  show ?case
  proof (cases "class_member p c")
    case True
    with "2.prems" have "w = c # takeWhile (class_member p) cs
        \<or> w \<in> set (findall p (dropWhile (class_member p) cs))"
      by simp
    then show ?thesis
    proof
      assume "w = c # takeWhile (class_member p) cs"
      with True show ?thesis by (auto dest: set_takeWhileD)
    next
      assume "w \<in> set (findall p (dropWhile (class_member p) cs))"
      with True "2.IH"(1) show ?thesis by blast
    qed
  next
    case False
    with "2.prems" "2.IH"(2) show ?thesis by simp
  qed
qed

lemma for_page_in_lower_bound:
  "for_page_in L ps wc = Inr n \<Longrightarrow> wc \<le> n"
proof (induction ps arbitrary: wc)
  case Nil
  then show ?case by simp
next
  case (Cons p ps)
  then obtain t where t: "get_text L p = Inr t"
    and rest: "for_page_in L ps (wc + int (length (findall HINDI_WORD_REGEX t))) = Inr n"
    by (auto simp: Let_def split: sum.splits)
  from Cons.IH [OF rest] show ?case by simp
qed

lemma findall_no_member:
  "\<forall>c\<in>set t. \<not> class_member p c \<Longrightarrow> findall p t = []"
  by (induction t) simp_all


lemma for_page_in_shift:
  "for_page_in L ps wc = (case for_page_in L ps 0 of Inl e \<Rightarrow> Inl e | Inr n \<Rightarrow> Inr (wc + n))"
proof (induction ps arbitrary: wc)
  case Nil
  then show ?case by simp
next
  case (Cons p ps)
  show ?case
  proof (cases "get_text L p")
    case (Inl e)
    then show ?thesis by simp
  next
    case (Inr t)
    let ?k = "int (length (findall HINDI_WORD_REGEX t))"
    from Cons.IH [of "wc + ?k"] Cons.IH [of ?k] Inr show ?thesis
      by (simp add: Let_def split: sum.splits)
  qed
qed

lemma for_page_in_append:
  "for_page_in L (ps @ qs) wc =
     (case for_page_in L ps wc of Inl e \<Rightarrow> Inl e | Inr w \<Rightarrow> for_page_in L qs w)"
  by (induction ps arbitrary: wc) (simp_all add: Let_def split: sum.splits)

lemma findall_append_boundary:
  "pre = [] \<or> \<not> class_member p (last pre) \<Longrightarrow>
   findall p (pre @ xs) = findall p pre @ findall p xs"
proof (induction p pre rule: findall.induct)
  case (1 p)
  show ?case by simp
next
  case (2 p c cs)
  let ?P = "class_member p"
  show ?case
  proof (cases "?P c")
    case False
    have "cs = [] \<or> \<not> ?P (last cs)" using "2.prems" by (auto split: if_splits)
    with False "2.IH"(2) show ?thesis by simp
  next
    case True
    with "2.prems" have cs: "cs \<noteq> []" and last: "\<not> ?P (last cs)"
      by (auto split: if_splits)
    then have mem: "last cs \<in> set cs" by simp
    from mem last have tw: "takeWhile ?P (cs @ xs) = takeWhile ?P cs"
      and dw: "dropWhile ?P (cs @ xs) = dropWhile ?P cs @ xs"
      by simp_all
    from mem last have ne: "dropWhile ?P cs \<noteq> []" by auto
    have "last (dropWhile ?P cs) = last cs"
      using ne by (metis last_appendR takeWhile_dropWhile_id)
    with last have "dropWhile ?P cs = [] \<or> \<not> ?P (last (dropWhile ?P cs))" by simp
    from "2.IH"(1) [OF True this] True tw dw show ?thesis by simp
  qed
qed

lemma findall_run_first:
  assumes "run \<noteq> []" and "\<forall>c\<in>set run. class_member p c"
    and "post = [] \<or> \<not> class_member p (hd post)"
  shows "findall p (run @ post) = run # findall p post"
proof (cases run)
  case Nil
  with assms(1) show ?thesis by simp
next
  case (Cons c cs)
  with assms(2) have c: "class_member p c" and cs: "\<forall>x\<in>set cs. class_member p x"
    by simp_all
  from assms(3) have "takeWhile (class_member p) post = []"
    and "dropWhile (class_member p) post = post"
    by (cases post; simp)+
  with cs have "takeWhile (class_member p) (cs @ post) = cs"
    and "dropWhile (class_member p) (cs @ post) = post"
    by simp_all
  with Cons c show ?thesis
    by (simp del: dropWhile_eq_Nil_conv takeWhile_eq_all_conv)
qed

lemma findall_run_inside:
  assumes "run \<noteq> []" and "\<forall>c\<in>set run. class_member p c"
    and "pre = [] \<or> \<not> class_member p (last pre)"
    and "post = [] \<or> \<not> class_member p (hd post)"
  shows "findall p (pre @ run @ post) = findall p pre @ run # findall p post"
  using findall_append_boundary [OF assms(3), of "run @ post"]
        findall_run_first [OF assms(1,2,4)]
  by simp



section \<open>Matches and maximal runs\<close>

lemma run_starts_dropWhile:
  "run_starts P True cs = run_starts P False (dropWhile P cs)"
  by (induction cs) simp_all

lemma length_findall:
  "length (findall p t) = run_starts (class_member p) False t"
  by (induction p t rule: findall.induct) (simp_all add: run_starts_dropWhile)

lemma run_end_unique:
  assumes "j \<le> length t" and "\<forall>k<j. P (t ! k)" and "j = length t \<or> \<not> P (t ! j)"
  shows "j = length (takeWhile P t)"
proof -
  have "takeWhile P t = take j t"
    using assms by (intro takeWhile_eq_take_P_nth) auto
  with assms(1) show ?thesis by simp
qed

lemma run_end_takeWhile:
  "(\<forall>k<length (takeWhile P t). P (t ! k))
   \<and> (length (takeWhile P t) = length t \<or> \<not> P (t ! length (takeWhile P t)))"
proof -
  have "P (t ! k)" if "k < length (takeWhile P t)" for k
    using that by (metis nth_mem set_takeWhileD takeWhile_nth)
  moreover have "length (takeWhile P t) = length t \<or> \<not> P (t ! length (takeWhile P t))"
    using nth_length_takeWhile [of P t] length_takeWhile_le [of P t] by fastforce
  ultimately show ?thesis by blast
qed

lemma run_after_Cons_zero:
  "run_after P prev (c # cs) 0 j \<longleftrightarrow>
     P c \<and> \<not> prev \<and> j = Suc (length (takeWhile P cs))"
proof
  assume r: "run_after P prev (c # cs) 0 j"
  then have j: "0 < j" "j \<le> length (c # cs)" and all: "\<forall>k<j. P ((c # cs) ! k)"
    and stop: "j = length (c # cs) \<or> \<not> P ((c # cs) ! j)" and "\<not> prev"
    by (auto simp: run_after_def)
  from j(1) all have "P c" by fastforce
  from run_end_unique [OF j(2) all stop] \<open>P c\<close> have "j = Suc (length (takeWhile P cs))"
    by simp
  with \<open>P c\<close> \<open>\<not> prev\<close> show "P c \<and> \<not> prev \<and> j = Suc (length (takeWhile P cs))" by simp
next
  assume a: "P c \<and> \<not> prev \<and> j = Suc (length (takeWhile P cs))"
  then have j: "j = length (takeWhile P (c # cs))" by simp
  from run_end_takeWhile [of P "c # cs"] a show "run_after P prev (c # cs) 0 j"
    unfolding run_after_def j using length_takeWhile_le [of P "c # cs"] by auto
qed

lemma ball_Suc_interval:
  "(\<forall>k\<in>{Suc i..<Suc j}. P ((c # cs) ! k)) \<longleftrightarrow> (\<forall>k\<in>{i..<j}. P (cs ! k))"
  (is "?A \<longleftrightarrow> ?B")
proof
  assume a: ?A
  show ?B
  proof
    fix k assume "k \<in> {i..<j}"
    then have "Suc k \<in> {Suc i..<Suc j}" by simp
    with a have "P ((c # cs) ! Suc k)" by blast
    then show "P (cs ! k)" by simp
  qed
next
  assume b: ?B
  show ?A
  proof
    fix k assume k: "k \<in> {Suc i..<Suc j}"
    then obtain k' where "k = Suc k'" by (cases k) auto
    with k b show "P ((c # cs) ! k)" by auto
  qed
qed

lemma run_after_Cons_Suc:
  "run_after P prev (c # cs) (Suc i) j \<longleftrightarrow> (\<exists>j'. j = Suc j' \<and> run_after P (P c) cs i j')"
proof
  assume r: "run_after P prev (c # cs) (Suc i) j"
  then obtain j' where j: "j = Suc j'" by (cases j) (auto simp: run_after_def)
  note ball_Suc_interval [of i j' P c cs]
  with r j have "run_after P (P c) cs i j'"
    by (cases i) (auto simp: run_after_def)
  with j show "\<exists>j'. j = Suc j' \<and> run_after P (P c) cs i j'" by blast
next
  assume "\<exists>j'. j = Suc j' \<and> run_after P (P c) cs i j'"
  then obtain j' where j: "j = Suc j'" and r: "run_after P (P c) cs i j'" by blast
  note ball_Suc_interval [of i j' P c cs]
  with r j show "run_after P prev (c # cs) (Suc i) j"
    by (cases i) (auto simp: run_after_def)
qed

lemma run_after_set_Cons:
  "{(i, j). run_after P prev (c # cs) i j}
     = (if P c \<and> \<not> prev then {(0, Suc (length (takeWhile P cs)))} else {})
       \<union> (\<lambda>(i, j). (Suc i, Suc j)) ` {(i, j). run_after P (P c) cs i j}"
  (is "?lhs = ?first \<union> ?shift ` ?rest")
proof (rule set_eqI)
  fix x :: "nat \<times> nat"
  obtain i j where x: "x = (i, j)" by (cases x)
  show "x \<in> ?lhs \<longleftrightarrow> x \<in> ?first \<union> ?shift ` ?rest"
  proof (cases i)
    case 0
    have "x \<notin> ?shift ` ?rest" using x 0 by auto
    with x 0 show ?thesis by (simp add: run_after_Cons_zero)
  next
    case (Suc i')
    have "x \<notin> ?first" using x Suc by simp
    moreover have "x \<in> ?shift ` ?rest \<longleftrightarrow> (\<exists>j'. j = Suc j' \<and> run_after P (P c) cs i' j')"
      using x Suc by auto
    ultimately show ?thesis using x Suc by (simp add: run_after_Cons_Suc)
  qed
qed

lemma finite_runs: "finite {(i, j). run_after P prev t i j}"
proof (rule finite_subset)
  show "{(i, j). run_after P prev t i j} \<subseteq> {0..length t} \<times> {0..length t}"
    by (auto simp: run_after_def)
qed simp

lemma card_runs: "card {(i, j). run_after P prev t i j} = run_starts P prev t"
proof (induction t arbitrary: prev)
  case Nil
  have "{(i, j). run_after P prev [] i j} = {}" by (auto simp: run_after_def)
  then show ?case by simp
next
  case (Cons c cs)
  let ?rest = "{(i, j). run_after P (P c) cs i j}"
  let ?shift = "\<lambda>(i, j). (Suc i, Suc j) :: nat \<times> nat"
  let ?first = "if P c \<and> \<not> prev then {(0 :: nat, Suc (length (takeWhile P cs)))} else {}"
  have inj: "inj_on ?shift ?rest" by (auto simp: inj_on_def)
  have disj: "?first \<inter> ?shift ` ?rest = {}" by auto
  have fin: "finite ?first" "finite (?shift ` ?rest)" by (simp_all add: finite_runs)
  have "card {(i, j). run_after P prev (c # cs) i j} = card (?first \<union> ?shift ` ?rest)"
    by (simp only: run_after_set_Cons)
  also have "\<dots> = card ?first + card (?shift ` ?rest)"
    using fin disj by (rule card_Un_disjoint)
  also have "card (?shift ` ?rest) = card ?rest"
    using inj by (rule card_image)
  also have "card ?rest = run_starts P (P c) cs" by (rule Cons.IH)
  also have "card ?first = (if P c \<and> \<not> prev then 1 else 0)" by simp
  finally show ?case by simp
qed

lemma spec_maximal_run_after:
  "spec_maximal_run t i j \<longleftrightarrow> run_after devanagari False t i j"
  by (cases i) (simp_all add: spec_maximal_run_def run_after_def)

lemma spec_run_count_card: "spec_run_count t = card {(i, j). spec_maximal_run t i j}"
proof -
  have "{x. case x of (i, j) \<Rightarrow> spec_maximal_run t i j}
          \<inter> set (List.product [0..<length t] [0..<Suc (length t)])
        = {(i, j). spec_maximal_run t i j}"
    by (auto simp: spec_maximal_run_def)
  moreover have "distinct (List.product [0..<length t] [0..<Suc (length t)])"
    by (simp add: distinct_product)
  ultimately show ?thesis
    by (simp add: spec_run_count_def spec_maximal_runs_def distinct_length_filter)
qed

lemma class_member_devanagari: "class_member HINDI_WORD_REGEX = devanagari"
  by (rule ext) (simp add: HINDI_WORD_REGEX_def devanagari_def)

lemma findall_counts_maximal_runs:
  "length (findall HINDI_WORD_REGEX t) = spec_run_count t"
  by (simp add: length_findall class_member_devanagari spec_run_count_card
        spec_maximal_run_after card_runs)

lemma spec_maximal_runs_do_not_overlap:
  assumes a: "spec_maximal_run t i j" and b: "spec_maximal_run t i' j'"
    and ne: "(i, j) \<noteq> (i', j')"
  shows "j < i' \<or> j' < i"
proof -
  have before: "j < i'"
    if r: "spec_maximal_run t i j" and r': "spec_maximal_run t i' j'" and lt: "i < i'"
    for i j i' j'
  proof (rule ccontr)
    assume "\<not> j < i'"
    with lt have "i' - 1 \<in> {i..<j}" by auto
    with r have "devanagari (t ! (i' - 1))" by (simp add: spec_maximal_run_def)
    moreover from r' lt have "\<not> devanagari (t ! (i' - 1))"
      by (auto simp: spec_maximal_run_def)
    ultimately show False by simp
  qed
  have same_end: "\<not> j < j'"
    if r: "spec_maximal_run t i j" and r': "spec_maximal_run t i j'" for i j j'
  proof
    assume lt: "j < j'"
    with r have "j \<in> {i..<j'}" by (simp add: spec_maximal_run_def)
    with r' have "devanagari (t ! j)" by (simp add: spec_maximal_run_def)
    moreover from r r' lt have "\<not> devanagari (t ! j)"
      by (auto simp: spec_maximal_run_def)
    ultimately show False by simp
  qed
  consider "i < i'" | "i' < i" | "i = i'" by linarith
  then show ?thesis
  proof cases
    case 1
    with before [OF a b] show ?thesis by simp
  next
    case 2
    with before [OF b a] show ?thesis by simp
  next
    case 3
    with same_end [of i j j'] same_end [of i j' j] a b have "j = j'" by auto
    with 3 ne show ?thesis by simp
  qed
qed


section \<open>The handler on accepted file names\<close>

lemma handler_counts_pdf:
  assumes "endswith (lower (filename pdf_file)) (literal ''.pdf'')"
    and "read pdf_file = Inr file_bytes"
    and "count_hindi_words_in_pdf L file_bytes = Inr total_words"
  shows "handle_pdf_upload lower L request pdf_file
           = (TemplateResponse ''index.html''
                [''request'' \<mapsto> VRequest request,
                 ''word_count'' \<mapsto> VInt total_words,
                 ''filename'' \<mapsto> VStr (filename pdf_file)],
              [FileRead, CountCall file_bytes])"
  using assms by (simp add: handle_pdf_upload_def)

lemma handler_reports_failure:
  assumes "endswith (lower (filename pdf_file)) (literal ''.pdf'')"
    and "read pdf_file = Inr file_bytes"
    and "count_hindi_words_in_pdf L file_bytes = Inl e"
  shows "fst (handle_pdf_upload lower L request pdf_file)
           = TemplateResponse ''index.html''
               [''request'' \<mapsto> VRequest request,
                ''error'' \<mapsto> VStr (literal
                   ''Could not process the PDF file. It may be corrupt or invalid.'')]"
  using assms by (simp add: handle_pdf_upload_def)


section \<open>Claims\<close>

text \<open>
  C1. For every buffer that the library opens and whose pages all yield text, the
  result is the sum, over the pages in document order, of the number of maximal runs of
  code points of U+0900 to U+097F in the page's text, each run counting once whatever
  its length. (Two different maximal runs of a text never overlap:
  \<open>spec_maximal_runs_do_not_overlap\<close>.)
\<close>

theorem count_is_total_of_maximal_runs:
  assumes "fitz_open L b = Inr doc"
    and "map (get_text L) (doc_pages L doc) = map Inr ts"
  shows "count_hindi_words_in_pdf L b = Inr (\<Sum>t\<leftarrow>ts. int (spec_run_count t))"
  using count_texts [OF assms] by (simp add: findall_counts_maximal_runs)

theorem count_is_total_of_maximal_runs_witness:
  "count_hindi_words_in_pdf
      (table_fitz [(sample_pdf, [Inr text_ram_danda, Inr text_mixed])]) sample_pdf = Inr 3
   \<and> spec_run_count text_ram_danda = 1 \<and> spec_run_count text_mixed = 2"
proof -
  have runs: "spec_run_count text_ram_danda = 1" "spec_run_count text_mixed = 2"
    by (simp_all add: spec_run_count_def spec_maximal_runs_def spec_maximal_run_def
          text_ram_danda_def text_mixed_def devanagari_def atLeastLessThanSuc)
  from count_is_total_of_maximal_runs
         [of "table_fitz [(sample_pdf, [Inr text_ram_danda, Inr text_mixed])]" sample_pdf
             "[Inr text_ram_danda, Inr text_mixed]" "[text_ram_danda, text_mixed]"]
  have "count_hindi_words_in_pdf
      (table_fitz [(sample_pdf, [Inr text_ram_danda, Inr text_mixed])]) sample_pdf
      = Inr (int (spec_run_count text_ram_danda) + int (spec_run_count text_mixed))"
    by (simp add: table_fitz_def)
  with runs show ?thesis by simp
qed

text \<open>
  C10. The character class is the whole Devanagari block, U+0900 to U+097F, not only
  its letters. A maximal run made only of Devanagari digits (U+0966 to U+096F) and danda
  marks (U+0964), wherever it stands in a page text, is one match of its own: the
  matches of the text are those before the run, the run, and those after it. A PDF
  whose only page has such a text counts the run once, and counts exactly 1 when the
  rest of the text has no code point of the block, as when the text is the run alone.
\<close>

theorem digit_and_danda_runs_count_as_words:
  assumes "run \<noteq> []"
    and "\<forall>c\<in>set run. (0x966 \<le> c \<and> c \<le> 0x96F) \<or> c = 0x964"
    and "pre = [] \<or> last pre < 0x900 \<or> 0x97F < last pre"
    and "post = [] \<or> hd post < 0x900 \<or> 0x97F < hd post"
    and "fitz_open L b = Inr doc"
    and "map (get_text L) (doc_pages L doc) = [Inr (pre @ run @ post)]"
  shows "(\<forall>c. class_member HINDI_WORD_REGEX c \<longleftrightarrow> 0x900 \<le> c \<and> c \<le> 0x97F)
       \<and> findall HINDI_WORD_REGEX (pre @ run @ post)
           = findall HINDI_WORD_REGEX pre @ run # findall HINDI_WORD_REGEX post
       \<and> count_hindi_words_in_pdf L b
           = Inr (int (length (findall HINDI_WORD_REGEX pre)) + 1
                  + int (length (findall HINDI_WORD_REGEX post)))
       \<and> ((\<forall>c\<in>set (pre @ post). c < 0x900 \<or> 0x97F < c) \<longrightarrow>
            findall HINDI_WORD_REGEX (pre @ run @ post) = [run]
            \<and> count_hindi_words_in_pdf L b = Inr 1)"
proof -
  let ?p = HINDI_WORD_REGEX
  have cls: "\<forall>c. class_member ?p c \<longleftrightarrow> 0x900 \<le> c \<and> c \<le> 0x97F"
    by (simp add: HINDI_WORD_REGEX_def)
  from assms(2) have run: "\<forall>c\<in>set run. class_member ?p c"
    by (auto simp: cls)
  from assms(3) have pre: "pre = [] \<or> \<not> class_member ?p (last pre)"
    by (auto simp: cls)
  from assms(4) have post: "post = [] \<or> \<not> class_member ?p (hd post)"
    by (auto simp: cls)
  have split: "findall ?p (pre @ run @ post) = findall ?p pre @ run # findall ?p post"
    using assms(1) run pre post by (rule findall_run_inside)
  from assms(6) have "map (get_text L) (doc_pages L doc) = map Inr [pre @ run @ post]"
    by simp
  from count_texts [OF assms(5) this] split
  have total: "count_hindi_words_in_pdf L b
      = Inr (int (length (findall ?p pre)) + 1 + int (length (findall ?p post)))"
    by simp
  have alone: "findall ?p (pre @ run @ post) = [run] \<and> count_hindi_words_in_pdf L b = Inr 1"
    if none: "\<forall>c\<in>set (pre @ post). c < 0x900 \<or> 0x97F < c"
  proof -
    have "\<not> class_member ?p c" if "c \<in> set pre \<union> set post" for c
    proof -
      from none that have "c < 0x900 \<or> 0x97F < c" by simp
      then show ?thesis by (auto simp: cls)
    qed
    then have "\<forall>c\<in>set pre. \<not> class_member ?p c" and "\<forall>c\<in>set post. \<not> class_member ?p c"
      by blast+
    then have "findall ?p pre = []" and "findall ?p post = []"
      by (simp_all add: findall_no_member)
    with split total show ?thesis by simp
  qed
  from cls split total alone show ?thesis by blast
qed

theorem digit_and_danda_runs_count_as_words_witness:
  "count_hindi_words_in_pdf (table_fitz [(sample_pdf, [Inr text_digits])]) sample_pdf = Inr 1
   \<and> count_hindi_words_in_pdf (table_fitz [(sample_pdf, [Inr text_danda])]) sample_pdf = Inr 1
   \<and> findall HINDI_WORD_REGEX (literal ''ab '' @ text_digits @ 0x20 # text_danda)
       = [text_digits, text_danda]
   \<and> count_hindi_words_in_pdf
        (table_fitz [(sample_pdf, [Inr (literal ''ab '' @ text_digits @ 0x20 # text_danda)])])
        sample_pdf = Inr 2"
  using digit_and_danda_runs_count_as_words
          [where run = text_digits and pre = "[]" and post = "[]"
             and L = "table_fitz [(sample_pdf, [Inr text_digits])]" and b = sample_pdf
             and doc = "[Inr text_digits]"]
        digit_and_danda_runs_count_as_words
          [where run = text_danda and pre = "[]" and post = "[]"
             and L = "table_fitz [(sample_pdf, [Inr text_danda])]" and b = sample_pdf
             and doc = "[Inr text_danda]"]
        digit_and_danda_runs_count_as_words
          [where run = text_digits and pre = "literal ''ab ''" and post = "0x20 # text_danda"
             and L = "table_fitz [(sample_pdf,
                        [Inr (literal ''ab '' @ text_digits @ 0x20 # text_danda)])]"
             and b = sample_pdf
             and doc = "[Inr (literal ''ab '' @ text_digits @ 0x20 # text_danda)]"]
  by (simp add: table_fitz_def text_digits_def text_danda_def literal_def
        HINDI_WORD_REGEX_def)

text \<open>
  C2, as amended. A PDF whose only page has the text of one Devanagari run followed by
  one more character counts exactly 1. When that character lies outside U+0900 to
  U+097F it is excluded from the matched run; when it lies inside the block, as the
  danda U+0964 does, it is part of the matched run.
\<close>

theorem run_then_punctuation_counts_one:
  assumes "run \<noteq> []"
    and "\<forall>c\<in>set run. 0x900 \<le> c \<and> c \<le> 0x97F"
    and "fitz_open L b = Inr doc"
    and "map (get_text L) (doc_pages L doc) = [Inr (run @ [q])]"
  shows "count_hindi_words_in_pdf L b = Inr 1
       \<and> findall HINDI_WORD_REGEX (run @ [q])
           = (if 0x900 \<le> q \<and> q \<le> 0x97F then [run @ [q]] else [run])"
proof -
  from assms(2) have run: "\<forall>c\<in>set run. class_member HINDI_WORD_REGEX c"
    by (simp add: HINDI_WORD_REGEX_def)
  have matches: "findall HINDI_WORD_REGEX (run @ [q])
      = (if 0x900 \<le> q \<and> q \<le> 0x97F then [run @ [q]] else [run])"
  proof (cases "class_member HINDI_WORD_REGEX q")
    case True
    with run have "\<forall>c\<in>set (run @ [q]). class_member HINDI_WORD_REGEX c" by simp
    then have "findall HINDI_WORD_REGEX (run @ [q]) = [run @ [q]]"
      by (intro findall_all_members) simp_all
    with True show ?thesis by (simp add: HINDI_WORD_REGEX_def)
  next
    case False
    with assms(1) run have "findall HINDI_WORD_REGEX (run @ [q]) = [run]"
      by (intro findall_run_then_other)
    with False show ?thesis by (simp add: HINDI_WORD_REGEX_def)
  qed
  from assms(4) have "map (get_text L) (doc_pages L doc) = map Inr [run @ [q]]" by simp
  from count_texts [OF assms(3) this] matches show ?thesis by simp
qed

theorem run_then_punctuation_counts_one_witness:
  "count_hindi_words_in_pdf (table_fitz [(sample_pdf, [Inr text_ram_danda])]) sample_pdf = Inr 1
   \<and> findall HINDI_WORD_REGEX text_ram_danda = [text_ram_danda]
   \<and> count_hindi_words_in_pdf
        (table_fitz [(sample_pdf, [Inr [0x930, 0x93E, 0x92E, 0x21]])]) sample_pdf = Inr 1
   \<and> findall HINDI_WORD_REGEX [0x930, 0x93E, 0x92E, 0x21] = [[0x930, 0x93E, 0x92E]]"
  using run_then_punctuation_counts_one
          [of "[0x930, 0x93E, 0x92E]" "table_fitz [(sample_pdf, [Inr text_ram_danda])]"
              sample_pdf "[Inr text_ram_danda]" "0x964"]
        run_then_punctuation_counts_one
          [of "[0x930, 0x93E, 0x92E]"
              "table_fitz [(sample_pdf, [Inr [0x930, 0x93E, 0x92E, 0x21]])]"
              sample_pdf "[Inr [0x930, 0x93E, 0x92E, 0x21]]" "0x21"]
  by (simp add: table_fitz_def text_ram_danda_def)

text \<open>
  C2, as stated, fails on its own example: in the text U+0930 U+093E U+092E U+0964 the
  danda is not excluded, the single match is the whole text.
\<close>

theorem danda_is_inside_the_matched_run:
  "findall HINDI_WORD_REGEX text_ram_danda \<noteq> [[0x930, 0x93E, 0x92E]]
   \<and> findall HINDI_WORD_REGEX text_ram_danda = [[0x930, 0x93E, 0x92E, 0x964]]"
  by (simp add: HINDI_WORD_REGEX_def text_ram_danda_def)

text \<open>
  C5. Only Devanagari runs are counted: every match in any text is a non-empty sequence
  of code points of the block, and a PDF whose only page has the text
  U+0939 U+0948 U+0932 U+094B, space, "hello", space, U+0935 U+0930 U+094D U+0932
  U+094D U+0921 counts exactly 2, its matches being the two Devanagari words.
\<close>

theorem mixed_script_counts_devanagari_only:
  assumes "fitz_open L b = Inr doc"
    and "map (get_text L) (doc_pages L doc) = [Inr text_hello_world]"
  shows "count_hindi_words_in_pdf L b = Inr 2
       \<and> findall HINDI_WORD_REGEX text_hello_world
           = [[0x939, 0x948, 0x932, 0x94B], [0x935, 0x930, 0x94D, 0x932, 0x94D, 0x921]]
       \<and> (\<forall>t. \<forall>w\<in>set (findall HINDI_WORD_REGEX t).
             w \<noteq> [] \<and> (\<forall>c\<in>set w. 0x900 \<le> c \<and> c \<le> 0x97F))"
proof -
  have matches: "findall HINDI_WORD_REGEX text_hello_world
      = [[0x939, 0x948, 0x932, 0x94B], [0x935, 0x930, 0x94D, 0x932, 0x94D, 0x921]]"
    by (simp add: HINDI_WORD_REGEX_def text_hello_world_def)
  from assms(2) have "map (get_text L) (doc_pages L doc) = map Inr [text_hello_world]"
    by simp
  from count_texts [OF assms(1) this] matches
  have "count_hindi_words_in_pdf L b = Inr 2" by simp
  moreover have "\<forall>t. \<forall>w\<in>set (findall HINDI_WORD_REGEX t).
      w \<noteq> [] \<and> (\<forall>c\<in>set w. 0x900 \<le> c \<and> c \<le> 0x97F)"
    using findall_matches_in_class [of _ HINDI_WORD_REGEX]
    by (fastforce simp: HINDI_WORD_REGEX_def)
  ultimately show ?thesis using matches by blast
qed

theorem mixed_script_counts_devanagari_only_witness:
  "count_hindi_words_in_pdf (table_fitz [(sample_pdf, [Inr text_hello_world])]) sample_pdf
     = Inr 2
   \<and> findall HINDI_WORD_REGEX text_hello_world
       = [[0x939, 0x948, 0x932, 0x94B], [0x935, 0x930, 0x94D, 0x932, 0x94D, 0x921]]"
  using mixed_script_counts_devanagari_only
          [of "table_fitz [(sample_pdf, [Inr text_hello_world])]" sample_pdf
              "[Inr text_hello_world]"]
  by (simp add: table_fitz_def)

text \<open>
  C4. When the PDF opens and no extracted page text contains a code point of U+0900 to
  U+097F, the result is 0; and whenever the function returns, its result is not
  negative.
\<close>

theorem no_devanagari_counts_zero:
  "(fitz_open L b = Inr doc \<longrightarrow> map (get_text L) (doc_pages L doc) = map Inr ts \<longrightarrow>
      (\<forall>t\<in>set ts. \<forall>c\<in>set t. c < 0x900 \<or> 0x97F < c) \<longrightarrow>
      count_hindi_words_in_pdf L b = Inr 0)
   \<and> (count_hindi_words_in_pdf L b = Inr n \<longrightarrow> 0 \<le> n)"
proof (intro conjI impI)
  assume opened: "fitz_open L b = Inr doc"
    and texts: "map (get_text L) (doc_pages L doc) = map Inr ts"
    and none: "\<forall>t\<in>set ts. \<forall>c\<in>set t. c < 0x900 \<or> 0x97F < c"
  have "findall HINDI_WORD_REGEX t = []" if "t \<in> set ts" for t
  proof (rule findall_no_member)
    from none that show "\<forall>c\<in>set t. \<not> class_member HINDI_WORD_REGEX c"
      by (fastforce simp: HINDI_WORD_REGEX_def)
  qed
  then have "map (\<lambda>t. int (length (findall HINDI_WORD_REGEX t))) ts = map (\<lambda>t. 0) ts"
    by simp
  then have "(\<Sum>t\<leftarrow>ts. int (length (findall HINDI_WORD_REGEX t))) = 0"
    by (simp only: sum_list_0)
  with count_texts [OF opened texts] show "count_hindi_words_in_pdf L b = Inr 0"
    by simp
next
  assume "count_hindi_words_in_pdf L b = Inr n"
  then obtain doc' where "for_page_in L (doc_pages L doc') 0 = Inr n"
    by (auto simp: count_hindi_words_in_pdf_def split: sum.splits)
  then show "0 \<le> n" by (rule for_page_in_lower_bound)
qed

theorem no_devanagari_counts_zero_witness:
  "count_hindi_words_in_pdf
      (table_fitz [(sample_pdf, [Inr (literal ''hello''), Inr [], Inr (literal ''PDF 1.7'')])])
      sample_pdf = Inr 0
   \<and> count_hindi_words_in_pdf (table_fitz [(sample_pdf, [Inr text_hello_world])]) sample_pdf
       = Inr 2
   \<and> (0::int) \<le> 2"
  using no_devanagari_counts_zero
          [of "table_fitz [(sample_pdf,
                 [Inr (literal ''hello''), Inr [], Inr (literal ''PDF 1.7'')])]"
              sample_pdf
              "[Inr (literal ''hello''), Inr [], Inr (literal ''PDF 1.7'')]"
              "[literal ''hello'', [], literal ''PDF 1.7'']" 0]
        no_devanagari_counts_zero
          [of "table_fitz [(sample_pdf, [Inr text_hello_world])]" sample_pdf
              "[Inr text_hello_world]" "[text_hello_world]" 2]
  by (simp add: table_fitz_def literal_def count_hindi_words_in_pdf_def
        HINDI_WORD_REGEX_def text_hello_world_def)

text \<open>
  C6. The result for a PDF that opens and whose pages all yield text is the sum, over
  the pages, of the number of matches found in each page text on its own. The page loop
  is a homomorphism from sequences of pages under concatenation to integers under
  addition: no pages count 0, and the count of two sequences of pages put one after the
  other is the sum of their counts.
\<close>

theorem count_is_sum_of_page_counts:
  "(fitz_open L b = Inr doc \<longrightarrow> map (get_text L) (doc_pages L doc) = map Inr ts \<longrightarrow>
      count_hindi_words_in_pdf L b
        = Inr (sum_list (map (\<lambda>t. int (length (findall HINDI_WORD_REGEX t))) ts)))
   \<and> for_page_in L [] 0 = Inr 0
   \<and> (for_page_in L ps 0 = Inr m \<longrightarrow> for_page_in L qs 0 = Inr n \<longrightarrow>
        for_page_in L (ps @ qs) 0 = Inr (m + n))"
proof (intro conjI impI)
  assume "fitz_open L b = Inr doc" and "map (get_text L) (doc_pages L doc) = map Inr ts"
  then show "count_hindi_words_in_pdf L b
      = Inr (sum_list (map (\<lambda>t. int (length (findall HINDI_WORD_REGEX t))) ts))"
    by (simp add: count_hindi_words_in_pdf_def for_page_in_texts)
next
  show "for_page_in L [] 0 = Inr 0" by simp
next
  assume ps: "for_page_in L ps 0 = Inr m" and qs: "for_page_in L qs 0 = Inr n"
  have "for_page_in L (ps @ qs) 0 = for_page_in L qs m"
    using ps by (simp add: for_page_in_append)
  also have "\<dots> = Inr (m + n)"
    using qs by (subst for_page_in_shift) simp
  finally show "for_page_in L (ps @ qs) 0 = Inr (m + n)" .
qed

theorem count_is_sum_of_page_counts_witness:
  "count_hindi_words_in_pdf
      (table_fitz [(sample_pdf, [Inr text_hello_world, Inr text_ram_danda, Inr text_digits])])
      sample_pdf = Inr (2 + 1 + 1)
   \<and> for_page_in (table_fitz []) [Inr text_hello_world, Inr text_ram_danda] 0 = Inr (2 + 1)"
  using count_is_sum_of_page_counts
          [of "table_fitz [(sample_pdf,
                 [Inr text_hello_world, Inr text_ram_danda, Inr text_digits])]"
              sample_pdf
              "[Inr text_hello_world, Inr text_ram_danda, Inr text_digits]"
              "[text_hello_world, text_ram_danda, text_digits]"
              "[]" 0 "[]" 0]
        count_is_sum_of_page_counts
          [of "table_fitz []" hello_pdf "[]" "[]"
              "[Inr text_hello_world]" 2 "[Inr text_ram_danda]" 1]
  by (simp add: table_fitz_def HINDI_WORD_REGEX_def text_hello_world_def
        text_ram_danda_def text_digits_def)




text \<open>
  C9. The handler checks the file name itself, before anything else: when the
  lower-cased file name does not end in ".pdf", it answers with the invalid-file-type
  error, without reading the upload and without calling \<open>count_hindi_words_in_pdf\<close>,
  and the rendered context holds no word count.
\<close>

theorem handler_rejects_other_file_names:
  assumes "\<not> endswith (lower (filename pdf_file)) (literal ''.pdf'')"
  shows "handle_pdf_upload lower L request pdf_file
           = (TemplateResponse ''index.html''
                [''request'' \<mapsto> VRequest request,
                 ''error'' \<mapsto> VStr (literal ''Invalid file type. Please upload a PDF.'')],
              [])
       \<and> response_context (fst (handle_pdf_upload lower L request pdf_file)) ''word_count''
           = None
       \<and> (\<forall>bs. CountCall bs \<notin> set (snd (handle_pdf_upload lower L request pdf_file)))"
  using assms by (simp add: handle_pdf_upload_def)

theorem handler_rejects_other_file_names_witness:
  "handle_pdf_upload ascii_lower (table_fitz [(sample_pdf, [Inr text_hello_world])]) ()
      \<lparr> filename = literal ''Notes.PDF.txt'', read = Inr sample_pdf \<rparr>
     = (TemplateResponse ''index.html''
          [''request'' \<mapsto> VRequest (),
           ''error'' \<mapsto> VStr (literal ''Invalid file type. Please upload a PDF.'')],
        [])"
  using handler_rejects_other_file_names
          [of ascii_lower "\<lparr> filename = literal ''Notes.PDF.txt'', read = Inr sample_pdf \<rparr>"
              "table_fitz [(sample_pdf, [Inr text_hello_world])]" "()"]
  by (simp add: endswith_def ascii_lower_def literal_def)

end
